theory Spec2Isabelle
  imports Main
begin

section \<open>JavaScript values and the object heap\<close>

text \<open>
  The history manager of \<^verbatim>\<open>examples/react/src/demo.ts\<close> keeps snapshots of the
  diagram as JavaScript objects, hands references to them to its callers and copies
  objects with the spread operator. Which objects are shared decides several of the
  properties below, so objects live in an explicit heap: a list of cells, the address
  of a cell being its position. Allocation appends a cell and never changes an
  existing one.

  Numbers are modelled as \<open>int\<close> (every number the manager computes is an index
  or a length), strings as lists of code units. Arrays are dense. An address beyond
  the end of the heap cannot arise in a JavaScript run; the model reads it as an
  object with no properties that is not an array.
\<close>

type_synonym addr = nat

datatype val = VUndefined | VNull | VBool bool | VNum int | VStr string | VRef addr

type_synonym props = "(string \<times> val) list"

datatype obj = Obj props | Arr "val list"

type_synonym heap = "obj list"

datatype error = TypeError

definition cell :: "heap \<Rightarrow> addr \<Rightarrow> obj option" where
  "cell h a = (if a < length h then Some (h ! a) else None)"

definition alloc :: "obj \<Rightarrow> heap \<Rightarrow> addr \<times> heap" where
  "alloc ob h = (length h, h @ [ob])"

text \<open>\<open>!v\<close> is \<open>\<not> truthy v\<close>.\<close>

fun truthy :: "val \<Rightarrow> bool" where
  "truthy VUndefined = False"
| "truthy VNull = False"
| "truthy (VBool b) = b"
| "truthy (VNum n) = (n \<noteq> 0)"
| "truthy (VStr s) = (s \<noteq> [])"
| "truthy (VRef a) = True"

text \<open>Property names of array elements and of the code units of a string.\<close>

fun show_nat :: "nat \<Rightarrow> string" where
  "show_nat n =
     (if n < 10 then [''0123456789'' ! n]
      else show_nat (n div 10) @ [''0123456789'' ! (n mod 10)])"

declare show_nat.simps [simp del]

definition indexed :: "val list \<Rightarrow> props" where
  "indexed vs = zip (map show_nat [0..<length vs]) vs"

text \<open>
  \<open>{ ...n }\<close>: the own enumerable properties of \<open>n\<close>, in order. The values are
  copied as they are, so a property that holds a reference still holds the same
  reference in the copy.
\<close>

fun spread :: "heap \<Rightarrow> val \<Rightarrow> props" where
  "spread h (VRef a) =
     (case cell h a of
        Some (Obj ps) \<Rightarrow> ps
      | Some (Arr vs) \<Rightarrow> indexed vs
      | None \<Rightarrow> [])"
| "spread h (VStr s) = indexed (map (\<lambda>c. VStr [c]) s)"
| "spread h v = []"

text \<open>
  \<open>o.k\<close> for an object reference \<open>o\<close> and a key \<open>k\<close> that is neither an index nor
  \<open>length\<close> (the manager reads \<open>nodes\<close> and \<open>edges\<close> only).
\<close>

definition get_field :: "heap \<Rightarrow> addr \<Rightarrow> string \<Rightarrow> val" where
  "get_field h a k =
     (case cell h a of
        Some (Obj ps) \<Rightarrow> (case map_of ps k of Some v \<Rightarrow> v | None \<Rightarrow> VUndefined)
      | _ \<Rightarrow> VUndefined)"

text \<open>
  \<open>v.map(f)\<close> needs \<open>v\<close> to be an array: on anything else the call raises a
  \<open>TypeError\<close> (\<open>array_elems\<close> is \<open>None\<close>).
\<close>

fun array_elems :: "heap \<Rightarrow> val \<Rightarrow> val list option" where
  "array_elems h (VRef a) = (case cell h a of Some (Arr vs) \<Rightarrow> Some vs | _ \<Rightarrow> None)"
| "array_elems h v = None"

text \<open>\<open>[...v]\<close> needs an iterable: an array or a string.\<close>

fun iter_elems :: "heap \<Rightarrow> val \<Rightarrow> val list option" where
  "iter_elems h (VRef a) = (case cell h a of Some (Arr vs) \<Rightarrow> Some vs | _ \<Rightarrow> None)"
| "iter_elems h (VStr s) = Some (map (\<lambda>c. VStr [c]) s)"
| "iter_elems h v = None"

text \<open>\<open>xs.slice(start, end)\<close> and \<open>xs[i]\<close> on the integers the manager passes.\<close>

definition js_slice :: "int \<Rightarrow> int option \<Rightarrow> 'a list \<Rightarrow> 'a list" where
  "js_slice start end xs =
     (let len = int (length xs);
          k = (if start < 0 then max (len + start) 0 else min start len);
          e = (case end of None \<Rightarrow> len | Some e' \<Rightarrow> e');
          final = (if e < 0 then max (len + e) 0 else min e len)
      in take (nat (final - k)) (drop (nat k) xs))"

definition js_index :: "addr list \<Rightarrow> int \<Rightarrow> val" where
  "js_index xs i = (if 0 \<le> i \<and> i < int (length xs) then VRef (xs ! nat i) else VUndefined)"

section \<open>The history manager\<close>

text \<open>
  \<open>HistoryState\<close> is the argument of \<open>addState\<close>, \<open>initialize\<close> and
  \<open>endTransaction\<close> as it arrives at run time: an object, as its type says, of
  which either field may be missing (it then reads as \<open>undefined\<close>) or hold any
  value.
\<close>

record HistoryState =
  nodes :: val
  edges :: val

text \<open>
  The three \<open>useRef\<close> cells of \<open>useHistoryManager\<close>, together with the heap and
  the console. The array in \<open>history.current\<close> is replaced as a whole by every
  write and is never handed out, so it is a list of the addresses of its entries.
\<close>

record machine =
  heap :: heap
  console :: "(string \<times> HistoryState) list"
  history :: "addr list"
  currentIndex :: int
  isTransacting :: bool

definition initial :: "heap \<Rightarrow> machine" where
  "initial h = \<lparr>heap = h, console = [], history = [], currentIndex = - 1, isTransacting = False\<rparr>"

text \<open>\<open>ns.map(n => ({ ...n }))\<close>, element by element.\<close>

fun copy_nodes :: "val list \<Rightarrow> heap \<Rightarrow> val list \<times> heap" where
  "copy_nodes [] h = ([], h)"
| "copy_nodes (n # ns) h =
     (let (a, h1) = alloc (Obj (spread h n)) h;
          (rs, h2) = copy_nodes ns h1
      in (VRef a # rs, h2))"

text \<open>
  The object literal \<open>{ nodes: s.nodes.map(n => ({ ...n })), edges: [...s.edges] }\<close>
  of lines 92--95, 101--104 and 146--149, given the values of \<open>s.nodes\<close> and
  \<open>s.edges\<close>. The result is the address of the new object, or the \<open>TypeError\<close>
  with the heap as it is when the error is raised.
\<close>

definition copy_state :: "val \<Rightarrow> val \<Rightarrow> heap \<Rightarrow> (error + addr) \<times> heap" where
  "copy_state ns es h =
     (case array_elems h ns of
        None \<Rightarrow> (Inl TypeError, h)
      | Some nvs \<Rightarrow>
          (let (cs, h1) = copy_nodes nvs h;
               (an, h2) = alloc (Arr cs) h1
           in case iter_elems h2 es of
                None \<Rightarrow> (Inl TypeError, h2)
              | Some evs \<Rightarrow>
                  (let (ae, h3) = alloc (Arr evs) h2;
                       (a, h4) = alloc (Obj [(''nodes'', VRef an), (''edges'', VRef ae)]) h3
                   in (Inr a, h4))))"

definition addState :: "HistoryState \<Rightarrow> machine \<Rightarrow> (error + val) \<times> machine" where
  "addState state m =
     (if \<not> truthy (nodes state) \<or> \<not> truthy (edges state)
      then (Inr VUndefined, m\<lparr>console := console m @ [(''Invalid state:'', state)]\<rparr>)
      else
        (case copy_state (nodes state) (edges state) (heap m) of
           (Inl e, h) \<Rightarrow> (Inl e, m\<lparr>heap := h\<rparr>)
         | (Inr a, h) \<Rightarrow>
             (let hist = js_slice (- 50) None
                           (js_slice 0 (Some (currentIndex m + 1)) (history m) @ [a])
              in (Inr VUndefined,
                  m\<lparr>heap := h, history := hist, currentIndex := int (length hist) - 1\<rparr>))))"

definition initialize :: "HistoryState \<Rightarrow> machine \<Rightarrow> (error + val) \<times> machine" where
  "initialize initialState m =
     (case copy_state (nodes initialState) (edges initialState) (heap m) of
        (Inl e, h) \<Rightarrow> (Inl e, m\<lparr>heap := h\<rparr>)
      | (Inr a, h) \<Rightarrow> (Inr VUndefined, m\<lparr>heap := h, history := [a], currentIndex := 0\<rparr>))"

definition undo :: "machine \<Rightarrow> val \<times> machine" where
  "undo m =
     (if currentIndex m > 0
      then (let m' = m\<lparr>currentIndex := currentIndex m - 1\<rparr>
            in (js_index (history m') (currentIndex m'), m'))
      else (VNull, m))"

definition redo :: "machine \<Rightarrow> val \<times> machine" where
  "redo m =
     (if currentIndex m < int (length (history m)) - 1
      then (let m' = m\<lparr>currentIndex := currentIndex m + 1\<rparr>
            in (js_index (history m') (currentIndex m'), m'))
      else (VNull, m))"

definition startTransaction :: "machine \<Rightarrow> val \<times> machine" where
  "startTransaction m = (VUndefined, m\<lparr>isTransacting := True\<rparr>)"

definition endTransaction :: "HistoryState \<Rightarrow> machine \<Rightarrow> (error + val) \<times> machine" where
  "endTransaction state m = addState state (m\<lparr>isTransacting := False\<rparr>)"

definition getCurrentIndex :: "machine \<Rightarrow> int" where
  "getCurrentIndex m = currentIndex m"

definition getHistoryLength :: "machine \<Rightarrow> int" where
  "getHistoryLength m = int (length (history m))"

definition getCurrentState :: "machine \<Rightarrow> val" where
  "getCurrentState m = js_index (history m) (currentIndex m)"

text \<open>
  The callback of \<open>getTimeline\<close>, run over the entries from index \<open>i\<close> on; \<open>ci\<close>
  is \<open>currentIndex.current\<close>.
\<close>

fun timeline_items :: "int \<Rightarrow> nat \<Rightarrow> addr list \<Rightarrow> heap \<Rightarrow> (error + val list) \<times> heap" where
  "timeline_items ci i [] h = (Inr [], h)"
| "timeline_items ci i (a # as) h =
     (case copy_state (get_field h a ''nodes'') (get_field h a ''edges'') h of
        (Inl e, h1) \<Rightarrow> (Inl e, h1)
      | (Inr s, h1) \<Rightarrow>
          (let (it, h2) = alloc (Obj [(''id'', VNum (int i)),
                                      (''active'', VBool (int i = ci)),
                                      (''state'', VRef s)]) h1
           in case timeline_items ci (Suc i) as h2 of
                (Inl e, h3) \<Rightarrow> (Inl e, h3)
              | (Inr its, h3) \<Rightarrow> (Inr (VRef it # its), h3)))"

definition getTimeline :: "machine \<Rightarrow> (error + val) \<times> machine" where
  "getTimeline m =
     (case timeline_items (currentIndex m) 0 (history m) (heap m) of
        (Inl e, h) \<Rightarrow> (Inl e, m\<lparr>heap := h\<rparr>)
      | (Inr its, h) \<Rightarrow>
          (let (a, h') = alloc (Arr its) h in (Inr (VRef a), m\<lparr>heap := h'\<rparr>)))"

section \<open>Callers of the manager\<close>

text \<open>
  A caller that holds a reference to a plain object can assign to one of its
  properties, \<open>o.k = v\<close>: the value of an existing property is replaced in place, a
  new property is added at the end. This is how the user interface, not the manager,
  changes the heap.
\<close>

fun set_prop :: "string \<Rightarrow> val \<Rightarrow> props \<Rightarrow> props" where
  "set_prop k v [] = [(k, v)]"
| "set_prop k v ((k', v') # ps) =
     (if k = k' then (k, v) # ps else (k', v') # set_prop k v ps)"

definition obj_assign :: "addr \<Rightarrow> string \<Rightarrow> val \<Rightarrow> heap \<Rightarrow> heap" where
  "obj_assign a k v h =
     (case cell h a of Some (Obj ps) \<Rightarrow> h[a := Obj (set_prop k v ps)] | _ \<Rightarrow> h)"

text \<open>
  One call of the interface the hook returns, or one step of the caller on the heap:
  a new object, an assignment to a property, or any other change of an object or an
  array in place (\<open>Mutate\<close>). A call that raises leaves the machine as it is at that
  moment, and the caller goes on.
\<close>

datatype cmd =
    Initialize HistoryState
  | AddState HistoryState
  | Undo
  | Redo
  | StartTransaction
  | EndTransaction HistoryState
  | GetCurrentIndex
  | GetHistoryLength
  | GetCurrentState
  | GetTimeline
  | New obj
  | Assign addr string val
  | Mutate addr obj

fun exec :: "cmd \<Rightarrow> machine \<Rightarrow> machine" where
  "exec (Initialize s) m = snd (initialize s m)"
| "exec (AddState s) m = snd (addState s m)"
| "exec Undo m = snd (undo m)"
| "exec Redo m = snd (redo m)"
| "exec StartTransaction m = snd (startTransaction m)"
| "exec (EndTransaction s) m = snd (endTransaction s m)"
| "exec GetCurrentIndex m = m"
| "exec GetHistoryLength m = m"
| "exec GetCurrentState m = m"
| "exec GetTimeline m = snd (getTimeline m)"
| "exec (New ob) m = m\<lparr>heap := snd (alloc ob (heap m))\<rparr>"
| "exec (Assign a k v) m = m\<lparr>heap := obj_assign a k v (heap m)\<rparr>"
| "exec (Mutate a ob) m = m\<lparr>heap := (heap m)[a := ob]\<rparr>"

definition run :: "cmd list \<Rightarrow> machine \<Rightarrow> machine" where
  "run cs m = fold exec cs m"

definition addStates :: "HistoryState list \<Rightarrow> machine \<Rightarrow> machine" where
  "addStates sts m = fold (\<lambda>st m'. snd (addState st m')) sts m"

text \<open>
  The entries written by a run of \<open>addState\<close> calls, in the order of the calls:
  each call that stores a snapshot leaves it as the last entry of the history.
\<close>

fun pushed :: "HistoryState list \<Rightarrow> machine \<Rightarrow> addr list" where
  "pushed [] m = []"
| "pushed (st # sts) m =
     (let m' = snd (addState st m) in last (history m') # pushed sts m')"

section \<open>Valid states and what a snapshot holds\<close>

text \<open>
  A valid state has a node array and an edge array (the type \<open>HistoryState\<close> of the
  source), and its nodes refer to cells of the heap.
\<close>

fun in_heap :: "heap \<Rightarrow> val \<Rightarrow> bool" where
  "in_heap h (VRef a) = (a < length h)"
| "in_heap h v = True"

definition valid_state :: "heap \<Rightarrow> HistoryState \<Rightarrow> bool" where
  "valid_state h st =
     ((case array_elems h (nodes st) of None \<Rightarrow> False | Some nvs \<Rightarrow> list_all (in_heap h) nvs)
      \<and> array_elems h (edges st) \<noteq> None)"

text \<open>
  What a pair of a node array and an edge array holds, one level deep: the property
  list of every node and the edge values. Two pairs with the same view have nodes
  with the same properties and the same edge references.
\<close>

definition view :: "heap \<Rightarrow> val \<Rightarrow> val \<Rightarrow> (props list \<times> val list) option" where
  "view h ns es =
     (case array_elems h ns of
        None \<Rightarrow> None
      | Some nvs \<Rightarrow>
          (case array_elems h es of
             None \<Rightarrow> None
           | Some evs \<Rightarrow> Some (map (spread h) nvs, evs)))"

definition state_view :: "heap \<Rightarrow> HistoryState \<Rightarrow> (props list \<times> val list) option" where
  "state_view h st = view h (nodes st) (edges st)"

definition read_snapshot :: "heap \<Rightarrow> addr \<Rightarrow> (props list \<times> val list) option" where
  "read_snapshot h a = view h (get_field h a ''nodes'') (get_field h a ''edges'')"

text \<open>Reading along a path of property names and array indices, for observations.\<close>

datatype sel = Prop string | Elem nat

fun get :: "heap \<Rightarrow> val \<Rightarrow> sel \<Rightarrow> val" where
  "get h (VRef a) (Prop k) = get_field h a k"
| "get h (VRef a) (Elem i) =
     (case cell h a of
        Some (Arr vs) \<Rightarrow> (if i < length vs then vs ! i else VUndefined)
      | _ \<Rightarrow> VUndefined)"
| "get h v k = VUndefined"

definition get_path :: "heap \<Rightarrow> val \<Rightarrow> sel list \<Rightarrow> val" where
  "get_path h v ks = foldl (get h) v ks"

text \<open>The bounds every reachable history satisfies.\<close>

definition history_inv :: "machine \<Rightarrow> bool" where
  "history_inv m =
     (length (history m) \<le> 50 \<and>
      (history m = [] \<and> currentIndex m = - 1 \<or>
       0 \<le> currentIndex m \<and> currentIndex m < int (length (history m))))"

section \<open>A small diagram\<close>

text \<open>
  One node of the demo, with its nested \<open>position\<close> and \<open>data\<close> objects, and no
  edges: cell 0 is the position, cell 1 the data, cell 2 the node, cell 3 the node
  array and cell 4 the edge array of \<open>demo_state\<close>.
\<close>

definition demo_heap :: heap where
  "demo_heap =
     [Obj [(''x'', VNum 100), (''y'', VNum 50)],
      Obj [(''label'', VStr ''start'')],
      Obj [(''id'', VStr ''start''), (''type'', VStr ''default''),
           (''position'', VRef 0), (''data'', VRef 1)],
      Arr [VRef 2],
      Arr []]"

definition demo_state :: HistoryState where
  "demo_state = \<lparr>nodes = VRef 3, edges = VRef 4\<rparr>"

text \<open>The diagram stored three times: \<open>initialize\<close> and two further writes.\<close>

definition demo_three :: machine where
  "demo_three =
     run [Initialize demo_state, AddState demo_state, AddState demo_state] (initial demo_heap)"

text \<open>The diagram stored once, by \<open>addState\<close> on the initial machine.\<close>

definition demo_stored :: machine where
  "demo_stored = snd (addState demo_state (initial demo_heap))"

text \<open>The diagram stored by \<open>initialize\<close>, and a drag begun after it.\<close>

definition demo_initialized_machine :: machine where
  "demo_initialized_machine = snd (initialize demo_state (initial demo_heap))"


section \<open>Auxiliary facts\<close>

subsection \<open>Slices\<close>

lemma js_slice_window: "js_slice (- 50) None xs = drop (length xs - 50) xs"
  by (auto simp: js_slice_def Let_def max_def nat_diff_distrib')

lemma js_slice_prefix: "0 \<le> e \<Longrightarrow> js_slice 0 (Some e) xs = take (nat e) xs"
  by (auto simp: js_slice_def Let_def min_def)

lemma js_slice_all: "int (length xs) \<le> e \<Longrightarrow> js_slice 0 (Some e) xs = xs"
  by (auto simp: js_slice_def Let_def min_def)

lemma window_window:
  "drop (length (drop (length xs - 50) xs @ ys) - 50) (drop (length xs - 50) xs @ ys)
     = drop (length (xs @ ys) - 50) (xs @ ys)"
  by (cases "length xs \<le> 50") (auto simp: add.commute)

subsection \<open>Allocation only extends the heap\<close>

lemma cell_append: "a < length h \<Longrightarrow> cell (h @ e) a = cell h a"
  by (simp add: cell_def nth_append)

lemma in_heap_append: "in_heap h v \<Longrightarrow> in_heap (h @ e) v"
  by (cases v) auto

lemma spread_append: "in_heap h v \<Longrightarrow> spread (h @ e) v = spread h v"
  by (cases v) (auto simp: cell_append)

lemma array_elems_append: "array_elems h v = Some vs \<Longrightarrow> array_elems (h @ e) v = Some vs"
  by (cases v) (auto simp: cell_def nth_append split: if_splits option.splits obj.splits)

lemma copy_nodes_closed:
  "list_all (in_heap h) ns \<Longrightarrow>
   copy_nodes ns (h @ e) =
     (map (\<lambda>i. VRef (length h + length e + i)) [0..<length ns],
      h @ e @ map (\<lambda>n. Obj (spread h n)) ns)"
proof (induction ns arbitrary: e)
  case Nil
  then show ?case by simp
next
  case (Cons n ns)
  have tl: "list_all (in_heap h) ns" and hd: "in_heap h n"
    using Cons.prems by simp_all
  have step: "copy_nodes ns (h @ (e @ [Obj (spread h n)])) =
     (map (\<lambda>i. VRef (length h + length (e @ [Obj (spread h n)]) + i)) [0..<length ns],
      h @ (e @ [Obj (spread h n)]) @ map (\<lambda>n. Obj (spread h n)) ns)"
    by (rule Cons.IH [OF tl])
  have rd: "spread (h @ e) n = spread h n"
    using hd by (rule spread_append)
  show ?case
    using step by (simp add: alloc_def rd map_upt_Suc del: upt_Suc)
qed

lemma copy_nodes_extends: "\<exists>e. snd (copy_nodes ns h) = h @ e"
proof (induction ns arbitrary: h)
  case Nil
  then show ?case by simp
next
  case (Cons n ns)
  obtain e where "snd (copy_nodes ns (h @ [Obj (spread h n)])) = (h @ [Obj (spread h n)]) @ e"
    using Cons.IH by blast
  then show ?case
    by (auto simp: alloc_def split: prod.splits)
qed

lemma copy_state_extends: "\<exists>e. snd (copy_state ns es h) = h @ e"
proof (cases "array_elems h ns")
  case None
  then show ?thesis by (simp add: copy_state_def)
next
  case (Some nvs)
  obtain e where "snd (copy_nodes nvs h) = h @ e"
    using copy_nodes_extends by blast
  then show ?thesis
    using Some by (auto simp: copy_state_def alloc_def split: option.splits prod.splits)
qed

lemma addState_extends: "\<exists>e. heap (snd (addState st m)) = heap m @ e"
proof -
  obtain e where "snd (copy_state (nodes st) (edges st) (heap m)) = heap m @ e"
    using copy_state_extends by blast
  then show ?thesis
    by (auto simp: addState_def Let_def split: prod.splits sum.splits)
qed

lemma initialize_extends: "\<exists>e. heap (snd (initialize st m)) = heap m @ e"
proof -
  obtain e where "snd (copy_state (nodes st) (edges st) (heap m)) = heap m @ e"
    using copy_state_extends by blast
  then show ?thesis
    by (auto simp: initialize_def split: prod.splits sum.splits)
qed

lemma timeline_items_extends: "\<exists>e. snd (timeline_items ci i as h) = h @ e"
proof (induction as arbitrary: i h)
  case Nil
  then show ?case by simp
next
  case (Cons a as)
  obtain e1 where e1: "snd (copy_state (get_field h a ''nodes'') (get_field h a ''edges'') h) = h @ e1"
    using copy_state_extends by blast
  show ?case
  proof (cases "fst (copy_state (get_field h a ''nodes'') (get_field h a ''edges'') h)")
    case (Inl err)
    then show ?thesis
      using e1 by (auto split: prod.splits sum.splits)
  next
    case (Inr s)
    let ?it = "Obj [(''id'', VNum (int i)), (''active'', VBool (int i = ci)), (''state'', VRef s)]"
    obtain e2 where e2: "snd (timeline_items ci (Suc i) as ((h @ e1) @ [?it])) = ((h @ e1) @ [?it]) @ e2"
      using Cons.IH by blast
    have cs: "copy_state (get_field h a ''nodes'') (get_field h a ''edges'') h = (Inr s, h @ e1)"
      using Inr e1 by (simp add: prod_eq_iff)
    have "snd (timeline_items ci i (a # as) h) = h @ (e1 @ [?it] @ e2)"
      using e2 by (auto simp: cs alloc_def split: prod.splits sum.splits)
    then show ?thesis by blast
  qed
qed

lemma getTimeline_extends: "\<exists>e. heap (snd (getTimeline m)) = heap m @ e"
proof -
  obtain e where e: "snd (timeline_items (currentIndex m) 0 (history m) (heap m)) = heap m @ e"
    using timeline_items_extends by blast
  show ?thesis
  proof (cases "fst (timeline_items (currentIndex m) 0 (history m) (heap m))")
    case (Inl err)
    then show ?thesis
      using e by (auto simp: getTimeline_def split: prod.splits sum.splits)
  next
    case (Inr its)
    then have "heap (snd (getTimeline m)) = heap m @ (e @ [Arr its])"
      using e by (auto simp: getTimeline_def alloc_def split: prod.splits sum.splits)
    then show ?thesis by blast
  qed
qed

lemma valid_stateE:
  assumes "valid_state h st"
  obtains nvs evs where "array_elems h (nodes st) = Some nvs" "list_all (in_heap h) nvs"
    "array_elems h (edges st) = Some evs" "truthy (nodes st)" "truthy (edges st)"
proof -
  from assms obtain nvs evs where a: "array_elems h (nodes st) = Some nvs"
      "list_all (in_heap h) nvs" "array_elems h (edges st) = Some evs"
    by (auto simp: valid_state_def split: option.splits)
  have "truthy (nodes st)" using a(1) by (cases "nodes st") auto
  moreover have "truthy (edges st)" using a(3) by (cases "edges st") auto
  ultimately show thesis using a that by blast
qed

lemma valid_state_append: "valid_state h st \<Longrightarrow> valid_state (h @ e) st"
  by (auto simp: valid_state_def array_elems_append list_all_iff in_heap_append
           split: option.splits)

lemma list_all_valid_append:
  "list_all (valid_state h) sts \<Longrightarrow> list_all (valid_state (h @ e)) sts"
  by (simp add: list_all_iff valid_state_append)

lemma state_view_append:
  assumes "valid_state h st"
  shows "state_view (h @ e) st = state_view h st"
proof -
  from assms obtain nvs evs where ns: "array_elems h (nodes st) = Some nvs"
    and wf: "list_all (in_heap h) nvs" and es: "array_elems h (edges st) = Some evs"
    by (rule valid_stateE)
  have "map (spread (h @ e)) nvs = map (spread h) nvs"
    using wf by (simp add: list_all_iff spread_append del: spread.simps)
  then show ?thesis
    by (simp add: state_view_def view_def ns es array_elems_append [OF ns] array_elems_append [OF es])
qed

subsection \<open>What a write stores\<close>

text \<open>What \<open>copy_state\<close> builds from a node array and an edge array.\<close>

lemma copy_state_closed:
  assumes ns: "array_elems h ns = Some nvs" and wf: "list_all (in_heap h) nvs"
    and es: "array_elems h es = Some evs"
  shows "copy_state ns es h =
     (Inr (length h + length nvs + 2),
      h @ map (\<lambda>n. Obj (spread h n)) nvs @
        [Arr (map (\<lambda>i. VRef (length h + i)) [0..<length nvs]),
         Arr evs,
         Obj [(''nodes'', VRef (length h + length nvs)),
              (''edges'', VRef (length h + length nvs + 1))]])"
proof -
  have cn: "copy_nodes nvs h =
     (map (\<lambda>i. VRef (length h + i)) [0..<length nvs], h @ map (\<lambda>n. Obj (spread h n)) nvs)"
    using copy_nodes_closed [OF wf, of "[]"] by simp
  have it: "\<And>e. iter_elems (h @ e) es = Some evs"
    using es by (cases es) (auto simp: cell_def nth_append split: if_splits option.splits obj.splits)
  show ?thesis
    by (simp add: copy_state_def ns cn alloc_def it)
qed

lemma read_snapshot_copy:
  assumes H: "H = h @ map (\<lambda>n. Obj (f n)) nvs @
        [Arr (map (\<lambda>i. VRef (length h + i)) [0..<length nvs]),
         Arr evs,
         Obj [(''nodes'', VRef (length h + length nvs)),
              (''edges'', VRef (length h + length nvs + 1))]] @ e"
  shows "read_snapshot H (length h + length nvs + 2) = Some (map f nvs, evs)"
proof -
  have fn: "get_field H (length h + length nvs + 2) ''nodes'' = VRef (length h + length nvs)"
    and fe: "get_field H (length h + length nvs + 2) ''edges'' = VRef (length h + length nvs + 1)"
    by (simp_all add: H get_field_def cell_def nth_append)
  have an: "array_elems H (VRef (length h + length nvs)) =
              Some (map (\<lambda>i. VRef (length h + i)) [0..<length nvs])"
    and ae: "array_elems H (VRef (length h + length nvs + 1)) = Some evs"
    by (simp_all add: H cell_def nth_append)
  have nd: "spread H (VRef (length h + i)) = f (nvs ! i)" if "i < length nvs" for i
    using that by (simp add: H cell_def nth_append)
  have "map (spread H) (map (\<lambda>i. VRef (length h + i)) [0..<length nvs]) =
        map (\<lambda>i. f (nvs ! i)) [0..<length nvs]"
    by (simp add: nd del: spread.simps)
  also have "\<dots> = map f nvs"
    by (rule nth_equalityI) simp_all
  finally have mp: "map (spread H) (map (\<lambda>i. VRef (length h + i)) [0..<length nvs]) =
        map f nvs" .
  show ?thesis
    unfolding read_snapshot_def view_def fn fe an ae by (simp only: option.case mp)
qed

text \<open>A valid state is stored: the shape of the machine after \<open>addState\<close>.\<close>

lemma addState_valid:
  assumes v: "valid_state (heap m) st"
  shows "\<exists>a e. addState st m =
           (Inr VUndefined,
            m\<lparr>heap := heap m @ e,
              history := drop (length (js_slice 0 (Some (currentIndex m + 1)) (history m)) - 49)
                           (js_slice 0 (Some (currentIndex m + 1)) (history m) @ [a]),
              currentIndex := int (length (drop (length (js_slice 0 (Some (currentIndex m + 1)) (history m)) - 49)
                           (js_slice 0 (Some (currentIndex m + 1)) (history m) @ [a]))) - 1\<rparr>)
         \<and> length (heap m) \<le> a \<and> a < length (heap m @ e)
         \<and> (\<forall>e'. read_snapshot (heap m @ e @ e') a = state_view (heap m) st)
         \<and> (\<forall>h'. length h' = length (heap m) \<longrightarrow>
                read_snapshot (h' @ e) a = state_view (heap m) st)"
proof -
  from v obtain nvs evs where ns: "array_elems (heap m) (nodes st) = Some nvs"
    and wf: "list_all (in_heap (heap m)) nvs"
    and es: "array_elems (heap m) (edges st) = Some evs"
    and tn: "truthy (nodes st)" and te: "truthy (edges st)"
    by (rule valid_stateE)
  let ?a = "length (heap m) + length nvs + 2"
  let ?e = "map (\<lambda>n. Obj (spread (heap m) n)) nvs @
        [Arr (map (\<lambda>i. VRef (length (heap m) + i)) [0..<length nvs]),
         Arr evs,
         Obj [(''nodes'', VRef (length (heap m) + length nvs)),
              (''edges'', VRef (length (heap m) + length nvs + 1))]]"
  have cs: "copy_state (nodes st) (edges st) (heap m) = (Inr ?a, heap m @ ?e)"
    using copy_state_closed [OF ns wf es] by simp
  have sv: "state_view (heap m) st = Some (map (spread (heap m)) nvs, evs)"
    by (simp add: state_view_def view_def ns es)
  have rd: "read_snapshot (heap m @ ?e @ e') ?a = state_view (heap m) st" for e'
    using read_snapshot_copy [of "heap m @ ?e @ e'" "heap m" "spread (heap m)" nvs evs e'] sv
    by simp
  have iso: "read_snapshot (h' @ ?e) ?a = state_view (heap m) st"
    if "length h' = length (heap m)" for h'
    using read_snapshot_copy [of "h' @ ?e" h' "spread (heap m)" nvs evs "[]"] sv that
    by simp
  have eq: "addState st m =
           (Inr VUndefined,
            m\<lparr>heap := heap m @ ?e,
              history := drop (length (js_slice 0 (Some (currentIndex m + 1)) (history m)) - 49)
                           (js_slice 0 (Some (currentIndex m + 1)) (history m) @ [?a]),
              currentIndex := int (length (drop (length (js_slice 0 (Some (currentIndex m + 1)) (history m)) - 49)
                           (js_slice 0 (Some (currentIndex m + 1)) (history m) @ [?a]))) - 1\<rparr>)"
    by (simp add: addState_def tn te cs js_slice_window Let_def)
  show ?thesis
    using eq rd iso by (intro exI [of _ ?a] exI [of _ ?e]) simp
qed

text \<open>What a call with a valid state leaves behind, in the terms used below.\<close>

lemma addState_valid_shape:
  assumes v: "valid_state (heap m) st"
  shows "\<exists>e. fst (addState st m) = Inr VUndefined
     \<and> history (snd (addState st m)) =
         drop (length (js_slice 0 (Some (currentIndex m + 1)) (history m)) - 49)
           (js_slice 0 (Some (currentIndex m + 1)) (history m) @ [last (history (snd (addState st m)))])
     \<and> currentIndex (snd (addState st m)) = int (length (history (snd (addState st m)))) - 1
     \<and> heap (snd (addState st m)) = heap m @ e
     \<and> length (heap m) \<le> last (history (snd (addState st m)))
     \<and> last (history (snd (addState st m))) < length (heap m @ e)
     \<and> isTransacting (snd (addState st m)) = isTransacting m
     \<and> console (snd (addState st m)) = console m
     \<and> (\<forall>e'. read_snapshot (heap m @ e @ e') (last (history (snd (addState st m)))) = state_view (heap m) st)
     \<and> (\<forall>h'. length h' = length (heap m) \<longrightarrow>
            read_snapshot (h' @ e) (last (history (snd (addState st m)))) = state_view (heap m) st)"
proof -
  let ?P = "js_slice 0 (Some (currentIndex m + 1)) (history m)"
  obtain a e where eq: "addState st m =
           (Inr VUndefined,
            m\<lparr>heap := heap m @ e,
              history := drop (length ?P - 49) (?P @ [a]),
              currentIndex := int (length (drop (length ?P - 49) (?P @ [a]))) - 1\<rparr>)"
    and fresh: "length (heap m) \<le> a" "a < length (heap m @ e)"
    and rd: "\<forall>e'. read_snapshot (heap m @ e @ e') a = state_view (heap m) st"
    and iso: "\<forall>h'. length h' = length (heap m) \<longrightarrow>
                read_snapshot (h' @ e) a = state_view (heap m) st"
    using addState_valid [OF v] by blast
  have la: "last (drop (length ?P - 49) (?P @ [a])) = a"
    by simp
  show ?thesis
    using fresh rd iso unfolding eq by (intro exI [of _ e]) (simp add: la)
qed

text \<open>
  The new entry is built from new cells only: it reads the same whatever the cells
  that existed before the call hold afterwards.
\<close>

lemma addState_copy_isolated:
  assumes v: "valid_state (heap m) st"
  shows "take (length (heap m)) (heap (snd (addState st m))) = heap m \<and>
         (\<forall>h'. length h' = length (heap m) \<longrightarrow>
            read_snapshot (h' @ drop (length (heap m)) (heap (snd (addState st m))))
              (last (history (snd (addState st m)))) = state_view (heap m) st) \<and>
         (\<forall>a ob. a < length (heap m) \<longrightarrow>
            read_snapshot ((heap (snd (addState st m)))[a := ob])
              (last (history (snd (addState st m)))) = state_view (heap m) st)"
proof -
  let ?m' = "snd (addState st m)"
  obtain e where hp: "heap ?m' = heap m @ e"
    and iso: "\<forall>h'. length h' = length (heap m) \<longrightarrow>
                read_snapshot (h' @ e) (last (history ?m')) = state_view (heap m) st"
    using addState_valid_shape [OF v] by blast
  have d: "drop (length (heap m)) (heap ?m') = e"
    by (simp add: hp)
  have one: "read_snapshot ((heap ?m')[a := ob]) (last (history ?m')) = state_view (heap m) st"
    if "a < length (heap m)" for a ob
  proof -
    have "(heap ?m')[a := ob] = (heap m)[a := ob] @ e"
      unfolding hp using that by (simp add: list_update_append1)
    then show ?thesis
      using iso [rule_format, of "(heap m)[a := ob]"] by simp
  qed
  show ?thesis
    unfolding d using iso one by (simp add: hp)
qed

lemma addState_valid_tip:
  assumes "valid_state (heap m) st"
  shows "currentIndex (snd (addState st m)) = int (length (history (snd (addState st m)))) - 1"
proof -
  obtain a e where "addState st m =
           (Inr VUndefined,
            m\<lparr>heap := heap m @ e,
              history := drop (length (js_slice 0 (Some (currentIndex m + 1)) (history m)) - 49)
                           (js_slice 0 (Some (currentIndex m + 1)) (history m) @ [a]),
              currentIndex := int (length (drop (length (js_slice 0 (Some (currentIndex m + 1)) (history m)) - 49)
                           (js_slice 0 (Some (currentIndex m + 1)) (history m) @ [a]))) - 1\<rparr>)"
    using addState_valid [OF assms] by blast
  then show ?thesis by simp
qed





lemma getCurrentState_is_entry:
  "0 \<le> currentIndex m \<Longrightarrow> currentIndex m < int (length (history m)) \<Longrightarrow>
   getCurrentState m = VRef (history m ! nat (currentIndex m))"
  by (simp add: getCurrentState_def js_index_def)

subsection \<open>Assignments by the caller\<close>

lemma length_obj_assign: "length (obj_assign a k v h) = length h"
  by (simp add: obj_assign_def split: option.splits obj.splits)

lemma obj_assign_append:
  "a < length h \<Longrightarrow> obj_assign a k v (h @ e) = obj_assign a k v h @ e"
  by (simp add: obj_assign_def cell_def nth_append list_update_append1
           split: option.splits obj.splits)

text \<open>
  One level deep the stored snapshot does not depend on the objects that existed
  before the call: whatever the caller assigns to one of them afterwards, the new
  entry still holds the property lists the nodes had and the edges the state had
  when \<open>addState\<close> was called.
\<close>

lemma snapshot_isolated_one_level:
  assumes v: "valid_state (heap m) st" and a: "a < length (heap m)"
  shows "read_snapshot (obj_assign a k x (heap (snd (addState st m))))
           (last (history (snd (addState st m)))) = state_view (heap m) st"
proof -
  let ?m' = "snd (addState st m)"
  obtain e where hp: "heap ?m' = heap m @ e"
    and iso: "\<forall>h'. length h' = length (heap m) \<longrightarrow>
                read_snapshot (h' @ e) (last (history ?m')) = state_view (heap m) st"
    using addState_valid_shape [OF v] by blast
  have "obj_assign a k x (heap ?m') = obj_assign a k x (heap m) @ e"
    unfolding hp using a by (rule obj_assign_append)
  then show ?thesis
    using iso [rule_format, of "obj_assign a k x (heap m)"] by (simp add: length_obj_assign)
qed

subsection \<open>Runs of \<open>addState\<close>\<close>

lemma addStates_snoc: "addStates (sts @ [st]) m = snd (addState st (addStates sts m))"
  by (simp add: addStates_def)

lemma addStates_Cons: "addStates (st # sts) m = addStates sts (snd (addState st m))"
  by (simp add: addStates_def)

lemma addStates_extends: "\<exists>e. heap (addStates sts m) = heap m @ e"
proof (induction sts rule: rev_induct)
  case Nil
  then show ?case by (simp add: addStates_def)
next
  case (snoc st sts)
  obtain e1 where e1: "heap (addStates sts m) = heap m @ e1"
    using snoc.IH by blast
  obtain e2 where "heap (snd (addState st (addStates sts m))) = heap (addStates sts m) @ e2"
    using addState_extends by blast
  then have "heap (addStates (sts @ [st]) m) = heap m @ (e1 @ e2)"
    by (simp add: addStates_snoc e1)
  then show ?case by blast
qed

lemma pushed_history:
  assumes "list_all (valid_state (heap m)) sts" and "sts \<noteq> []"
  shows "history (addStates sts m) =
           drop (length (js_slice 0 (Some (currentIndex m + 1)) (history m) @ pushed sts m) - 50)
             (js_slice 0 (Some (currentIndex m + 1)) (history m) @ pushed sts m)"
  using assms
proof (induction sts arbitrary: m)
  case Nil
  then show ?case by simp
next
  case (Cons st sts)
  let ?m' = "snd (addState st m)"
  let ?P = "js_slice 0 (Some (currentIndex m + 1)) (history m)"
  let ?a = "last (history ?m')"
  have v: "valid_state (heap m) st" and vs: "list_all (valid_state (heap m)) sts"
    using Cons.prems by simp_all
  obtain e where h: "history ?m' = drop (length ?P - 49) (?P @ [?a])"
    and c: "currentIndex ?m' = int (length (history ?m')) - 1"
    and hp: "heap ?m' = heap m @ e"
    using addState_valid_shape [OF v] by blast
  have h50: "history ?m' = drop (length (?P @ [?a]) - 50) (?P @ [?a])"
    using h by simp
  show ?case
  proof (cases "sts = []")
    case True
    then show ?thesis
      using h50 by (simp add: addStates_def Let_def)
  next
    case False
    have vs': "list_all (valid_state (heap ?m')) sts"
      unfolding hp using vs by (rule list_all_valid_append)
    have all: "js_slice 0 (Some (currentIndex ?m' + 1)) (history ?m') = history ?m'"
      by (rule js_slice_all) (simp add: c)
    have "history (addStates sts ?m') =
            drop (length (history ?m' @ pushed sts ?m') - 50) (history ?m' @ pushed sts ?m')"
      using Cons.IH [OF vs' False] unfolding all .
    also have "\<dots> = drop (length (drop (length (?P @ [?a]) - 50) (?P @ [?a]) @ pushed sts ?m') - 50)
                        (drop (length (?P @ [?a]) - 50) (?P @ [?a]) @ pushed sts ?m')"
      using h50 by (rule arg_cong [where f = "\<lambda>h. drop (length (h @ pushed sts ?m') - 50) (h @ pushed sts ?m')"])
    also have "\<dots> = drop (length ((?P @ [?a]) @ pushed sts ?m') - 50) ((?P @ [?a]) @ pushed sts ?m')"
      by (rule window_window)
    finally show ?thesis
      by (simp add: addStates_Cons Let_def)
  qed
qed

lemma pushed_length: "length (pushed sts m) = length sts"
  by (induction sts arbitrary: m) (simp_all add: Let_def)

lemma pushed_fresh:
  assumes "list_all (valid_state (heap m)) sts"
  shows "sorted_wrt (<) (pushed sts m) \<and> (\<forall>a\<in>set (pushed sts m). length (heap m) \<le> a)"
  using assms
proof (induction sts arbitrary: m)
  case Nil
  then show ?case by simp
next
  case (Cons st sts)
  let ?m' = "snd (addState st m)"
  have v: "valid_state (heap m) st" and vs: "list_all (valid_state (heap m)) sts"
    using Cons.prems by simp_all
  obtain e where hp: "heap ?m' = heap m @ e"
    and lo: "length (heap m) \<le> last (history ?m')"
    and hi: "last (history ?m') < length (heap m @ e)"
    using addState_valid_shape [OF v] by blast
  have vs': "list_all (valid_state (heap ?m')) sts"
    unfolding hp using vs by (rule list_all_valid_append)
  have IH: "sorted_wrt (<) (pushed sts ?m')" "\<forall>a\<in>set (pushed sts ?m'). length (heap ?m') \<le> a"
    using Cons.IH [OF vs'] by simp_all
  have "\<forall>a\<in>set (pushed sts ?m'). last (history ?m') < a \<and> length (heap m) \<le> a"
    using IH(2) hi unfolding hp by fastforce
  then show ?case
    using IH(1) lo by (simp add: Let_def)
qed

lemma pushed_snapshots:
  assumes "list_all (valid_state (heap m)) sts"
  shows "map (read_snapshot (heap (addStates sts m) @ x)) (pushed sts m) = map (state_view (heap m)) sts"
  using assms
proof (induction sts arbitrary: m)
  case Nil
  then show ?case by simp
next
  case (Cons st sts)
  let ?m' = "snd (addState st m)"
  have v: "valid_state (heap m) st" and vs: "list_all (valid_state (heap m)) sts"
    using Cons.prems by simp_all
  obtain e where hp: "heap ?m' = heap m @ e"
    and rd: "\<forall>e'. read_snapshot (heap m @ e @ e') (last (history ?m')) = state_view (heap m) st"
    using addState_valid_shape [OF v] by blast
  have vs': "list_all (valid_state (heap ?m')) sts"
    unfolding hp using vs by (rule list_all_valid_append)
  obtain e2 where e2: "heap (addStates sts ?m') = heap ?m' @ e2"
    using addStates_extends by blast
  have first: "read_snapshot (heap (addStates sts ?m') @ x) (last (history ?m')) = state_view (heap m) st"
    using rd [rule_format, of "e2 @ x"] by (simp add: e2 hp)
  have "map (state_view (heap ?m')) sts = map (state_view (heap m)) sts"
    using vs unfolding hp by (simp add: list_all_iff state_view_append)
  then have rest: "map (read_snapshot (heap (addStates sts ?m') @ x)) (pushed sts ?m') =
                   map (state_view (heap m)) sts"
    using Cons.IH [OF vs'] by simp
  show ?case
    using first rest by (simp add: addStates_Cons Let_def)
qed

subsection \<open>Reachable histories\<close>

lemma run_append: "run (cs @ cs') m = run cs' (run cs m)"
  by (simp add: run_def)

lemma history_inv_initial: "history_inv (initial h)"
  by (simp add: history_inv_def initial_def)

lemma history_inv_heap: "history_inv (m\<lparr>heap := h\<rparr>) = history_inv m"
  by (simp add: history_inv_def)

lemma history_inv_flag: "history_inv (m\<lparr>isTransacting := b\<rparr>) = history_inv m"
  by (simp add: history_inv_def)

lemma history_inv_addState: "history_inv m \<Longrightarrow> history_inv (snd (addState st m))"
  by (auto simp: addState_def history_inv_def js_slice_window Let_def
           split: prod.splits sum.splits)

lemma history_inv_initialize: "history_inv m \<Longrightarrow> history_inv (snd (initialize st m))"
  by (auto simp: initialize_def history_inv_def split: prod.splits sum.splits)

lemma history_inv_undo: "history_inv m \<Longrightarrow> history_inv (snd (undo m))"
  by (auto simp: undo_def history_inv_def Let_def)

lemma history_inv_redo: "history_inv m \<Longrightarrow> history_inv (snd (redo m))"
  by (auto simp: redo_def history_inv_def Let_def)

lemma history_inv_getTimeline: "history_inv m \<Longrightarrow> history_inv (snd (getTimeline m))"
  by (auto simp: getTimeline_def history_inv_def alloc_def split: prod.splits sum.splits)

lemma history_inv_exec: "history_inv m \<Longrightarrow> history_inv (exec c m)"
  by (cases c)
     (simp_all add: history_inv_addState history_inv_initialize history_inv_undo
        history_inv_redo history_inv_getTimeline history_inv_heap history_inv_flag
        startTransaction_def endTransaction_def)

lemma history_inv_run: "history_inv m \<Longrightarrow> history_inv (run cs m)"
  unfolding run_def by (induction cs arbitrary: m) (simp_all add: history_inv_exec)

lemma history_inv_reachable: "history_inv (run cs (initial h))"
  by (rule history_inv_run) (rule history_inv_initial)

subsection \<open>The small diagram, evaluated\<close>

lemma valid_demo: "valid_state demo_heap demo_state"
  by (simp add: valid_state_def demo_heap_def demo_state_def cell_def)

lemma demo_initialized:
  "snd (initialize demo_state (initial demo_heap)) =
     \<lparr>heap = demo_heap @
         [Obj [(''id'', VStr ''start''), (''type'', VStr ''default''),
               (''position'', VRef 0), (''data'', VRef 1)],
          Arr [VRef 5],
          Arr [],
          Obj [(''nodes'', VRef 6), (''edges'', VRef 7)]],
      console = [], history = [8], currentIndex = 0, isTransacting = False\<rparr>"
  by (simp add: initialize_def initial_def demo_heap_def demo_state_def copy_state_def
        cell_def alloc_def)

lemma demo_initialized_machine_eval:
  "demo_initialized_machine =
     \<lparr>heap = demo_heap @
         [Obj [(''id'', VStr ''start''), (''type'', VStr ''default''),
               (''position'', VRef 0), (''data'', VRef 1)],
          Arr [VRef 5],
          Arr [],
          Obj [(''nodes'', VRef 6), (''edges'', VRef 7)]],
      console = [], history = [8], currentIndex = 0, isTransacting = False\<rparr>"
  by (simp add: demo_initialized_machine_def demo_initialized)

lemma demo_stored_eval:
  "demo_stored =
     \<lparr>heap = demo_heap @
         [Obj [(''id'', VStr ''start''), (''type'', VStr ''default''),
               (''position'', VRef 0), (''data'', VRef 1)],
          Arr [VRef 5],
          Arr [],
          Obj [(''nodes'', VRef 6), (''edges'', VRef 7)]],
      console = [], history = [8], currentIndex = 0, isTransacting = False\<rparr>"
  by (simp add: demo_stored_def addState_def initial_def demo_heap_def demo_state_def
        copy_state_def cell_def alloc_def js_slice_def Let_def)

lemma demo_three_eval:
  "demo_three =
     \<lparr>heap = demo_heap @
         [Obj [(''id'', VStr ''start''), (''type'', VStr ''default''),
               (''position'', VRef 0), (''data'', VRef 1)],
          Arr [VRef 5],
          Arr [],
          Obj [(''nodes'', VRef 6), (''edges'', VRef 7)],
          Obj [(''id'', VStr ''start''), (''type'', VStr ''default''),
               (''position'', VRef 0), (''data'', VRef 1)],
          Arr [VRef 9],
          Arr [],
          Obj [(''nodes'', VRef 10), (''edges'', VRef 11)],
          Obj [(''id'', VStr ''start''), (''type'', VStr ''default''),
               (''position'', VRef 0), (''data'', VRef 1)],
          Arr [VRef 13],
          Arr [],
          Obj [(''nodes'', VRef 14), (''edges'', VRef 15)]],
      console = [], history = [8, 12, 16], currentIndex = 2, isTransacting = False\<rparr>"
  by (simp add: demo_three_def run_def initialize_def addState_def initial_def demo_heap_def
        demo_state_def copy_state_def cell_def alloc_def js_slice_def Let_def)

lemma valid_demo_three: "valid_state (heap demo_three) demo_state"
proof -
  have "valid_state (demo_heap @ e) demo_state" for e
    by (rule valid_state_append) (rule valid_demo)
  then show ?thesis by (simp add: demo_three_eval)
qed

lemma demo_undone:
  "run [Initialize demo_state, AddState demo_state, AddState demo_state, Undo, Undo]
     (initial demo_heap) = demo_three\<lparr>currentIndex := 0\<rparr>"
proof -
  have "run ([Initialize demo_state, AddState demo_state, AddState demo_state] @ [Undo, Undo])
          (initial demo_heap) = run [Undo, Undo] demo_three"
    by (simp only: run_append demo_three_def)
  also have "\<dots> = demo_three\<lparr>currentIndex := 0\<rparr>"
    by (simp add: run_def undo_def Let_def demo_three_eval)
  finally show ?thesis by simp
qed

lemma demo_three_addStates:
  "addStates [demo_state, demo_state] (snd (initialize demo_state (initial demo_heap))) = demo_three"
  by (simp add: demo_three_def run_def addStates_def)

lemma demo_undone_addState:
  "history (snd (addState demo_state (demo_three\<lparr>currentIndex := 0\<rparr>))) = [8, 20] \<and>
   currentIndex (snd (addState demo_state (demo_three\<lparr>currentIndex := 0\<rparr>))) = 1"
  by (simp add: demo_three_eval addState_def demo_heap_def demo_state_def copy_state_def
        cell_def alloc_def js_slice_def Let_def)

lemma demo_undone_stored:
  "state_view (heap (demo_three\<lparr>currentIndex := 0\<rparr>)) demo_state =
     Some ([[(''id'', VStr ''start''), (''type'', VStr ''default''),
             (''position'', VRef 0), (''data'', VRef 1)]], []) \<and>
   length (heap (demo_three\<lparr>currentIndex := 0\<rparr>)) = 17"
  by (simp add: demo_three_eval state_view_def view_def demo_heap_def demo_state_def cell_def)





section \<open>The index after a write\<close>

text \<open>
  Claim C1. Take any run of \<open>addState\<close> calls with valid states made after
  \<open>initialize\<close>. After each of the calls (the \<open>k\<close>-th, for every \<open>k\<close> from 1 to
  the number of calls) the current index is the length of the history minus one.
\<close>

theorem addState_index_at_tip:
  assumes valid: "list_all (valid_state (heap m0)) sts"
    and k: "0 < k" "k \<le> length sts"
  shows "currentIndex (addStates (take k sts) (snd (initialize st0 m0))) =
         int (length (history (addStates (take k sts) (snd (initialize st0 m0))))) - 1"
proof -
  let ?m1 = "snd (initialize st0 m0)"
  have "take k sts \<noteq> []"
    using k by auto
  then obtain ys y where split: "take k sts = ys @ [y]"
    by (cases "take k sts" rule: rev_cases) auto
  have "y \<in> set (take k sts)" by (simp add: split)
  then have "y \<in> set sts" by (rule in_set_takeD)
  then have v0: "valid_state (heap m0) y" using valid by (simp add: list_all_iff)
  obtain e1 where e1: "heap ?m1 = heap m0 @ e1"
    using initialize_extends by blast
  obtain e2 where e2: "heap (addStates ys ?m1) = heap ?m1 @ e2"
    using addStates_extends by blast
  have "valid_state (heap (addStates ys ?m1)) y"
    using valid_state_append [OF v0, of "e1 @ e2"] by (simp add: e1 e2)
  then show ?thesis
    unfolding split addStates_snoc by (rule addState_valid_tip)
qed

theorem addState_index_at_tip_witness:
  "list_all (valid_state (heap (initial demo_heap))) [demo_state, demo_state] \<and>
   (0::nat) < 2 \<and> (2::nat) \<le> length [demo_state, demo_state] \<and>
   currentIndex (addStates (take 2 [demo_state, demo_state])
                   (snd (initialize demo_state (initial demo_heap)))) =
     int (length (history (addStates (take 2 [demo_state, demo_state])
                   (snd (initialize demo_state (initial demo_heap)))))) - 1 \<and>
   history (addStates (take 2 [demo_state, demo_state])
              (snd (initialize demo_state (initial demo_heap)))) = [8, 12, 16] \<and>
   currentIndex (addStates (take 2 [demo_state, demo_state])
                   (snd (initialize demo_state (initial demo_heap)))) = 2"
proof -
  have v: "list_all (valid_state (heap (initial demo_heap))) [demo_state, demo_state]"
    by (simp add: valid_demo initial_def)
  have e: "history (addStates (take 2 [demo_state, demo_state])
              (snd (initialize demo_state (initial demo_heap)))) = [8, 12, 16]"
    by (simp add: demo_three_addStates) (simp add: demo_three_eval)
  show ?thesis
    using v e addState_index_at_tip [OF v, of 2 demo_state] by simp
qed

section \<open>Writing after an undo\<close>

text \<open>
  Claim C2. In a state the manager can reach (by any calls and any steps of its
  caller on the heap, from the initial state) whose current index is not the last
  one, \<open>addState\<close> with a valid state keeps the entries up to the current index,
  drops the ones after it and appends one new object, which holds a copy of the
  state: the same node properties and the same edges as the argument. The copy is
  made of new cells only. The call leaves every cell that existed before it as it
  was, and the new entry reads the same whatever those cells hold afterwards: with
  all of them replaced at once (\<open>h'\<close>), or with any one of them, such as the live
  node array or a live node, replaced by anything (\<open>a\<close>, \<open>ob\<close>). The history then
  has the old current index plus two entries, and the new one is current.
\<close>

theorem addState_after_undo:
  assumes reach: "m = run cmds (initial h0)"
    and mid: "currentIndex m < int (length (history m)) - 1"
    and valid: "valid_state (heap m) st"
  shows "history (snd (addState st m)) =
           take (nat (currentIndex m) + 1) (history m) @ [last (history (snd (addState st m)))] \<and>
         length (heap m) \<le> last (history (snd (addState st m))) \<and>
         read_snapshot (heap (snd (addState st m))) (last (history (snd (addState st m)))) =
           state_view (heap m) st \<and>
         int (length (history (snd (addState st m)))) = currentIndex m + 2 \<and>
         currentIndex (snd (addState st m)) = currentIndex m + 1 \<and>
         take (length (heap m)) (heap (snd (addState st m))) = heap m \<and>
         (length h' = length (heap m) \<longrightarrow>
            read_snapshot (h' @ drop (length (heap m)) (heap (snd (addState st m))))
              (last (history (snd (addState st m)))) = state_view (heap m) st) \<and>
         (a < length (heap m) \<longrightarrow>
            read_snapshot ((heap (snd (addState st m)))[a := ob])
              (last (history (snd (addState st m)))) = state_view (heap m) st)"
proof -
  let ?m' = "snd (addState st m)"
  let ?P = "js_slice 0 (Some (currentIndex m + 1)) (history m)"
  have inv: "history_inv m"
    unfolding reach by (rule history_inv_reachable)
  have idx: "0 \<le> currentIndex m" and len: "length (history m) \<le> 50"
    using inv mid by (auto simp: history_inv_def)
  have P: "?P = take (nat (currentIndex m) + 1) (history m)"
    using idx by (simp add: js_slice_prefix nat_add_distrib)
  have lP: "length ?P = nat (currentIndex m) + 1"
    unfolding P using mid idx by simp
  have small: "length ?P - 49 = 0"
    unfolding lP using mid len by simp
  obtain e where h: "history ?m' = drop (length ?P - 49) (?P @ [last (history ?m')])"
    and c: "currentIndex ?m' = int (length (history ?m')) - 1"
    and hp: "heap ?m' = heap m @ e"
    and fresh: "length (heap m) \<le> last (history ?m')"
    and rd: "\<forall>e'. read_snapshot (heap m @ e @ e') (last (history ?m')) = state_view (heap m) st"
    using addState_valid_shape [OF valid] by blast
  have "drop (length ?P - 49) (?P @ [last (history ?m')]) = ?P @ [last (history ?m')]"
    by (simp only: small drop_0)
  with h have "history ?m' = ?P @ [last (history ?m')]"
    by (rule trans)
  then have h': "history ?m' = take (nat (currentIndex m) + 1) (history m) @ [last (history ?m')]"
    by (simp only: P)
  have n: "int (length (history ?m')) = currentIndex m + 2"
    using arg_cong [OF h', of length] mid idx by simp
  have r: "read_snapshot (heap ?m') (last (history ?m')) = state_view (heap m) st"
    using rd [rule_format, of "[]"] by (simp add: hp)
  note iso = addState_copy_isolated [OF valid]
  have i1: "take (length (heap m)) (heap ?m') = heap m"
    and i2: "length h' = length (heap m) \<longrightarrow>
            read_snapshot (h' @ drop (length (heap m)) (heap ?m')) (last (history ?m')) =
              state_view (heap m) st"
    and i3: "a < length (heap m) \<longrightarrow>
            read_snapshot ((heap ?m')[a := ob]) (last (history ?m')) = state_view (heap m) st"
    using iso by blast+
  have c': "currentIndex ?m' = currentIndex m + 1"
    using c n by simp
  show ?thesis
    using h' fresh r n c' i1 i2 i3 by (intro conjI)
qed

theorem addState_after_undo_witness:
  "currentIndex (run [Initialize demo_state, AddState demo_state, AddState demo_state, Undo, Undo]
                   (initial demo_heap))
     < int (length (history (run [Initialize demo_state, AddState demo_state, AddState demo_state,
                                  Undo, Undo] (initial demo_heap)))) - 1 \<and>
   valid_state (heap (run [Initialize demo_state, AddState demo_state, AddState demo_state, Undo, Undo]
                        (initial demo_heap))) demo_state \<and>
   history (run [Initialize demo_state, AddState demo_state, AddState demo_state, Undo, Undo]
              (initial demo_heap)) = [8, 12, 16] \<and>
   history (snd (addState demo_state
       (run [Initialize demo_state, AddState demo_state, AddState demo_state, Undo, Undo]
          (initial demo_heap)))) = [8, 20] \<and>
   int (length (history (snd (addState demo_state
       (run [Initialize demo_state, AddState demo_state, AddState demo_state, Undo, Undo]
          (initial demo_heap)))))) = 2 \<and>
   currentIndex (snd (addState demo_state
       (run [Initialize demo_state, AddState demo_state, AddState demo_state, Undo, Undo]
          (initial demo_heap)))) = 1 \<and>
   length (replicate 17 (Arr [])) =
     length (heap (run [Initialize demo_state, AddState demo_state, AddState demo_state, Undo, Undo]
                     (initial demo_heap))) \<and>
   read_snapshot
     (replicate 17 (Arr []) @
      drop 17 (heap (snd (addState demo_state
         (run [Initialize demo_state, AddState demo_state, AddState demo_state, Undo, Undo]
            (initial demo_heap)))))) 20 =
     Some ([[(''id'', VStr ''start''), (''type'', VStr ''default''),
             (''position'', VRef 0), (''data'', VRef 1)]], []) \<and>
   (3::nat) < length (heap (run [Initialize demo_state, AddState demo_state, AddState demo_state,
                                 Undo, Undo] (initial demo_heap))) \<and>
   read_snapshot
     ((heap (snd (addState demo_state
         (run [Initialize demo_state, AddState demo_state, AddState demo_state, Undo, Undo]
            (initial demo_heap)))))[3 := Arr []]) 20 =
     Some ([[(''id'', VStr ''start''), (''type'', VStr ''default''),
             (''position'', VRef 0), (''data'', VRef 1)]], [])"
proof -
  let ?m = "run [Initialize demo_state, AddState demo_state, AddState demo_state, Undo, Undo]
              (initial demo_heap)"
  have mid: "currentIndex ?m < int (length (history ?m)) - 1"
    by (simp add: demo_undone) (simp add: demo_three_eval)
  have valid: "valid_state (heap ?m) demo_state"
    using valid_demo_three by (simp add: demo_undone)
  have h: "history ?m = [8, 12, 16]" and c: "currentIndex ?m = 0"
    by (simp_all add: demo_undone) (simp add: demo_three_eval)
  have l: "history (snd (addState demo_state ?m)) = [8, 20]"
    using demo_undone_addState by (simp add: demo_undone)
  have sv: "state_view (heap ?m) demo_state =
     Some ([[(''id'', VStr ''start''), (''type'', VStr ''default''),
             (''position'', VRef 0), (''data'', VRef 1)]], [])"
    and n: "length (heap ?m) = 17"
    using demo_undone_stored by (simp_all add: demo_undone)
  show ?thesis
    using mid valid
      addState_after_undo [OF refl mid valid, of "replicate 17 (Arr [])" 3 "Arr []"]
    by (simp add: h c l sv n)
qed

section \<open>The bound of fifty entries\<close>

text \<open>
  Claim C3. Whatever the calls, the history never holds more than 50 entries. A run
  of writes with valid states leaves the entries that were kept at its start
  followed by the entries it wrote, cut to the last 50: what is dropped is dropped at
  the front. After 50 writes or more the history is exactly the last 50 entries
  written, in order; the entries written are distinct objects, so no earlier one is
  in the history any more; each entry written is an object allocated by its call
  and holds a copy of the state of that call.
\<close>

theorem history_window:
  "length (history (run cmds (initial h0))) \<le> 50 \<and>
   (list_all (valid_state (heap m)) sts \<and> sts \<noteq> [] \<longrightarrow>
      history (addStates sts m) =
        drop (length (js_slice 0 (Some (currentIndex m + 1)) (history m) @ pushed sts m) - 50)
          (js_slice 0 (Some (currentIndex m + 1)) (history m) @ pushed sts m)) \<and>
   (list_all (valid_state (heap m)) sts \<and> 50 \<le> length sts \<longrightarrow>
      history (addStates sts m) = drop (length sts - 50) (pushed sts m) \<and>
      length (history (addStates sts m)) = 50 \<and>
      list_all (\<lambda>a. length (heap m) \<le> a) (pushed sts m) \<and>
      distinct (pushed sts m) \<and>
      set (take (length sts - 50) (pushed sts m)) \<inter> set (history (addStates sts m)) = {} \<and>
      map (read_snapshot (heap (addStates sts m))) (pushed sts m) = map (state_view (heap m)) sts)"
proof (intro conjI impI)
  show "length (history (run cmds (initial h0))) \<le> 50"
    using history_inv_reachable [of cmds h0] by (simp add: history_inv_def)
next
  assume "list_all (valid_state (heap m)) sts \<and> sts \<noteq> []"
  then show "history (addStates sts m) =
        drop (length (js_slice 0 (Some (currentIndex m + 1)) (history m) @ pushed sts m) - 50)
          (js_slice 0 (Some (currentIndex m + 1)) (history m) @ pushed sts m)"
    by (simp add: pushed_history)
next
  assume a: "list_all (valid_state (heap m)) sts \<and> 50 \<le> length sts"
  then have v: "list_all (valid_state (heap m)) sts" and n: "50 \<le> length sts" and ne: "sts \<noteq> []"
    by auto
  let ?P = "js_slice 0 (Some (currentIndex m + 1)) (history m)"
  have "history (addStates sts m) = drop (length (?P @ pushed sts m) - 50) (?P @ pushed sts m)"
    using v ne by (rule pushed_history)
  also have "\<dots> = drop (length sts - 50) (pushed sts m)"
    using n by (simp add: pushed_length)
  finally show h: "history (addStates sts m) = drop (length sts - 50) (pushed sts m)" .
  show "length (history (addStates sts m)) = 50"
    unfolding h using n by (simp add: pushed_length)
  show "list_all (\<lambda>a. length (heap m) \<le> a) (pushed sts m)"
    using pushed_fresh [OF v] by (simp add: list_all_iff)
  have "sorted_wrt (<) (pushed sts m)"
    using pushed_fresh [OF v] by simp
  then show d: "distinct (pushed sts m)"
    by (simp add: strict_sorted_iff)
  have "distinct (take (length sts - 50) (pushed sts m) @ drop (length sts - 50) (pushed sts m))"
    using d by simp
  then show "set (take (length sts - 50) (pushed sts m)) \<inter> set (history (addStates sts m)) = {}"
    unfolding h by (simp only: distinct_append)
  show "map (read_snapshot (heap (addStates sts m))) (pushed sts m) = map (state_view (heap m)) sts"
    using pushed_snapshots [OF v, of "[]"] by simp
qed

theorem history_window_witness:
  "list_all (valid_state (heap (initial demo_heap))) (replicate 51 demo_state) \<and>
   replicate 51 demo_state \<noteq> [] \<and>
   50 \<le> length (replicate 51 demo_state) \<and>
   length (history (run [Initialize demo_state] (initial demo_heap))) \<le> 50 \<and>
   history (addStates (replicate 51 demo_state) (initial demo_heap)) =
     tl (pushed (replicate 51 demo_state) (initial demo_heap)) \<and>
   length (history (addStates (replicate 51 demo_state) (initial demo_heap))) = 50 \<and>
   hd (pushed (replicate 51 demo_state) (initial demo_heap))
     \<notin> set (history (addStates (replicate 51 demo_state) (initial demo_heap)))"
proof -
  have v: "list_all (valid_state (heap (initial demo_heap))) (replicate 51 demo_state)"
    by (simp add: list_all_iff valid_demo initial_def)
  have ne: "replicate 51 demo_state \<noteq> []" and n: "50 \<le> length (replicate 51 demo_state)"
    by simp_all
  note hw = history_window [of "[Initialize demo_state]" demo_heap "initial demo_heap"
      "replicate 51 demo_state"]
  have b: "length (history (run [Initialize demo_state] (initial demo_heap))) \<le> 50"
    using hw by blast
  have c: "history (addStates (replicate 51 demo_state) (initial demo_heap)) =
             drop (length (replicate 51 demo_state) - 50)
               (pushed (replicate 51 demo_state) (initial demo_heap))"
    and l: "length (history (addStates (replicate 51 demo_state) (initial demo_heap))) = 50"
    and d: "set (take (length (replicate 51 demo_state) - 50)
                  (pushed (replicate 51 demo_state) (initial demo_heap)))
            \<inter> set (history (addStates (replicate 51 demo_state) (initial demo_heap))) = {}"
    using hw v n by blast+
  have "length (pushed (replicate 51 demo_state) (initial demo_heap)) = 51"
    by (simp add: pushed_length)
  then obtain a as where p: "pushed (replicate 51 demo_state) (initial demo_heap) = a # as"
    by (cases "pushed (replicate 51 demo_state) (initial demo_heap)") auto
  have c': "history (addStates (replicate 51 demo_state) (initial demo_heap)) =
             tl (pushed (replicate 51 demo_state) (initial demo_heap))"
    using c by (simp add: p)
  have d': "hd (pushed (replicate 51 demo_state) (initial demo_heap))
             \<notin> set (history (addStates (replicate 51 demo_state) (initial demo_heap)))"
    using d by (simp add: p)
  show ?thesis
    using v ne n b c' l d' by blast
qed

section \<open>Undo, then redo\<close>

text \<open>
  Claim C4. From a current index strictly inside the history (greater than 0 and less
  than the last index), \<open>undo\<close> followed at once by \<open>redo\<close> gives back the machine
  as it was before the \<open>undo\<close>, the current index included, and \<open>redo\<close> returns the
  very entry that was current before the \<open>undo\<close>; \<open>undo\<close> itself returns the
  entry before it.
\<close>

theorem undo_redo_round_trip:
  assumes "0 < currentIndex m" and "currentIndex m < int (length (history m)) - 1"
  shows "redo (snd (undo m)) = (getCurrentState m, m) \<and>
         getCurrentState m = VRef (history m ! nat (currentIndex m)) \<and>
         fst (undo m) = VRef (history m ! nat (currentIndex m - 1))"
  using assms by (simp add: undo_def redo_def getCurrentState_def js_index_def Let_def)

theorem undo_redo_round_trip_witness:
  "0 < currentIndex (snd (undo demo_three)) \<and>
   currentIndex (snd (undo demo_three)) < int (length (history (snd (undo demo_three)))) - 1 \<and>
   redo (snd (undo (snd (undo demo_three)))) =
     (getCurrentState (snd (undo demo_three)), snd (undo demo_three)) \<and>
   getCurrentState (snd (undo demo_three)) = VRef 12 \<and>
   fst (undo (snd (undo demo_three))) = VRef 8"
proof -
  have i: "0 < currentIndex (snd (undo demo_three))"
    and l: "currentIndex (snd (undo demo_three)) < int (length (history (snd (undo demo_three)))) - 1"
    by (simp_all add: undo_def demo_three_eval Let_def)
  have h: "history (snd (undo demo_three)) = [8, 12, 16]" and c: "currentIndex (snd (undo demo_three)) = 1"
    by (simp_all add: undo_def demo_three_eval Let_def)
  show ?thesis
    using i l undo_redo_round_trip [OF i l] by (simp add: h c)
qed

section \<open>The ends of the history\<close>

text \<open>
  Claim C5. \<open>undo\<close> called while the current index is 0 returns \<open>null\<close> and
  leaves the machine as it is: the index, the history and the heap that holds every
  stored entry. \<open>redo\<close> called while the current index is the last one returns
  \<open>null\<close> and leaves the machine as it is. Nothing wraps around and nothing is
  raised.
\<close>

theorem undo_redo_at_ends:
  "(currentIndex m = 0 \<longrightarrow> undo m = (VNull, m)) \<and>
   (currentIndex m = int (length (history m)) - 1 \<longrightarrow> redo m = (VNull, m))"
  by (simp add: undo_def redo_def)

theorem undo_redo_at_ends_witness:
  "currentIndex (snd (initialize demo_state (initial demo_heap))) = 0 \<and>
   undo (snd (initialize demo_state (initial demo_heap))) =
     (VNull, snd (initialize demo_state (initial demo_heap))) \<and>
   currentIndex (snd (initialize demo_state (initial demo_heap))) =
     int (length (history (snd (initialize demo_state (initial demo_heap))))) - 1 \<and>
   redo (snd (initialize demo_state (initial demo_heap))) =
     (VNull, snd (initialize demo_state (initial demo_heap)))"
  using undo_redo_at_ends [of "snd (initialize demo_state (initial demo_heap))"]
  by (simp add: demo_initialized)

section \<open>Transactions\<close>




section \<open>How deep the copy of a node is\<close>

text \<open>
  Claim C7 says that a stored snapshot is isolated from the live diagram down to the
  nested fields of a node, such as \<open>position\<close>. The source copies every node with
  one spread, \<open>{ ...n }\<close>, under the comment that the nodes are deep-copied: the
  copy has top-level properties of its own and shares every nested object with the
  live node. On the small diagram, after \<open>addState\<close>: the live node is cell 2 and
  its position is cell 0; the node of the stored entry is another object, cell 5, but
  its position is cell 0 as well. The stored \<open>position.x\<close> is 100; after the caller
  assigns 999 to \<open>position.x\<close> of the live node, the stored snapshot reads 999. An
  assignment to the top-level \<open>id\<close> of the live node does not reach the stored
  node. The entry stored by \<open>initialize\<close> shares the position in the same way.
\<close>

theorem stored_node_shares_position:
  "get_path demo_heap (nodes demo_state) [Elem 0] = VRef 2 \<and>
   get_path demo_heap (nodes demo_state) [Elem 0, Prop ''position''] = VRef 0 \<and>
   history demo_stored = [8] \<and>
   get_path (heap demo_stored) (VRef 8) [Prop ''nodes'', Elem 0] = VRef 5 \<and>
   get_path (heap demo_stored) (VRef 8) [Prop ''nodes'', Elem 0, Prop ''position''] = VRef 0 \<and>
   get_path (heap demo_stored) (VRef 8)
     [Prop ''nodes'', Elem 0, Prop ''position'', Prop ''x''] = VNum 100 \<and>
   get_path (obj_assign 0 ''x'' (VNum 999) (heap demo_stored)) (VRef 8)
     [Prop ''nodes'', Elem 0, Prop ''position'', Prop ''x''] = VNum 999 \<and>
   get_path (obj_assign 2 ''id'' (VStr ''moved'') (heap demo_stored)) (VRef 8)
     [Prop ''nodes'', Elem 0, Prop ''id''] = VStr ''start'' \<and>
   history demo_initialized_machine = [8] \<and>
   get_path (obj_assign 0 ''x'' (VNum 999) (heap demo_initialized_machine)) (VRef 8)
     [Prop ''nodes'', Elem 0, Prop ''position'', Prop ''x''] = VNum 999"
  by (simp add: demo_stored_eval demo_initialized_machine_eval demo_heap_def demo_state_def
        get_path_def get_field_def cell_def obj_assign_def)

section \<open>What the queries return\<close>

text \<open>
  Claim C8 says that every snapshot a query returns is a fresh copy, the snapshot at
  the current index included. \<open>getCurrentState\<close> returns the stored entry itself:
  on the small diagram after \<open>initialize\<close> it returns cell 8, the one entry of the
  history, whose node is cell 5. An assignment to \<open>id\<close> of that node, or to
  \<open>nodes\<close> of the returned object, is an assignment to the stored history: the
  stored snapshot reads \<open>moved\<close> afterwards, or has no node array at all.
  \<open>getTimeline\<close>, the other query that returns snapshots, leaves the history as it
  is and returns new objects (cell 12 with node cell 9); the position of the copied
  node is still cell 0, shared as in claim C7.
\<close>

theorem getCurrentState_returns_stored_entry:
  "history demo_initialized_machine = [8] \<and>
   getCurrentState demo_initialized_machine = VRef 8 \<and>
   get_path (heap demo_initialized_machine) (getCurrentState demo_initialized_machine)
     [Prop ''nodes'', Elem 0] = VRef 5 \<and>
   get_path (heap demo_initialized_machine) (VRef 8) [Prop ''nodes'', Elem 0, Prop ''id''] =
     VStr ''start'' \<and>
   get_path (obj_assign 5 ''id'' (VStr ''moved'') (heap demo_initialized_machine)) (VRef 8)
     [Prop ''nodes'', Elem 0, Prop ''id''] = VStr ''moved'' \<and>
   read_snapshot (heap demo_initialized_machine) 8 \<noteq> None \<and>
   read_snapshot (obj_assign 8 ''nodes'' VNull (heap demo_initialized_machine)) 8 = None \<and>
   fst (getTimeline demo_initialized_machine) = Inr (VRef 14) \<and>
   history (snd (getTimeline demo_initialized_machine)) = [8] \<and>
   get_path (heap (snd (getTimeline demo_initialized_machine))) (VRef 14)
     [Elem 0, Prop ''state''] = VRef 12 \<and>
   get_path (heap (snd (getTimeline demo_initialized_machine))) (VRef 14)
     [Elem 0, Prop ''state'', Prop ''nodes'', Elem 0] = VRef 9 \<and>
   get_path (heap (snd (getTimeline demo_initialized_machine))) (VRef 14)
     [Elem 0, Prop ''state'', Prop ''nodes'', Elem 0, Prop ''position''] = VRef 0"
  by (simp add: demo_initialized_machine_eval demo_heap_def getCurrentState_def js_index_def
        get_path_def get_field_def cell_def obj_assign_def read_snapshot_def view_def
        getTimeline_def copy_state_def alloc_def)

section \<open>A state without nodes or edges\<close>

text \<open>
  Claim C9. When the node sequence or the edge sequence of the argument is missing
  (the property reads as \<open>undefined\<close>, which is falsy; the same holds for every
  falsy value), \<open>addState\<close> logs \<open>Invalid state:\<close> with the argument on the console
  and returns normally. The heap, the history, the current index and the transaction
  flag are as before.
\<close>

theorem addState_invalid_noop:
  assumes "\<not> truthy (nodes st) \<or> \<not> truthy (edges st)"
  shows "addState st m = (Inr VUndefined, m\<lparr>console := console m @ [(''Invalid state:'', st)]\<rparr>) \<and>
         heap (snd (addState st m)) = heap m \<and>
         history (snd (addState st m)) = history m \<and>
         currentIndex (snd (addState st m)) = currentIndex m \<and>
         isTransacting (snd (addState st m)) = isTransacting m"
  using assms by (auto simp: addState_def)

theorem addState_invalid_noop_witness:
  "\<not> truthy (nodes \<lparr>nodes = VUndefined, edges = VRef 4\<rparr>) \<and>
   addState \<lparr>nodes = VUndefined, edges = VRef 4\<rparr> (initial demo_heap) =
     (Inr VUndefined,
      (initial demo_heap)\<lparr>console := [(''Invalid state:'', \<lparr>nodes = VUndefined, edges = VRef 4\<rparr>)]\<rparr>) \<and>
   history (snd (addState \<lparr>nodes = VUndefined, edges = VRef 4\<rparr> (initial demo_heap))) = []"
  using addState_invalid_noop [of "\<lparr>nodes = VUndefined, edges = VRef 4\<rparr>" "initial demo_heap"]
  by (simp add: initial_def)

section \<open>Before \<open>initialize\<close>\<close>

text \<open>
  Claim C10. While the history is empty and the current index has its initial value
  \<open>-1\<close>, \<open>undo\<close> and \<open>redo\<close> both return \<open>null\<close> and leave the whole machine
  (history, index, transaction flag, heap) as it is; no entry is read.
\<close>

theorem undo_redo_before_initialize:
  assumes "history m = []" and "currentIndex m = - 1"
  shows "undo m = (VNull, m) \<and> redo m = (VNull, m)"
  using assms by (simp add: undo_def redo_def)

theorem undo_redo_before_initialize_witness:
  "history (initial demo_heap) = [] \<and> currentIndex (initial demo_heap) = - 1 \<and>
   undo (initial demo_heap) = (VNull, initial demo_heap) \<and>
   redo (initial demo_heap) = (VNull, initial demo_heap)"
proof -
  have h: "history (initial demo_heap) = []" and c: "currentIndex (initial demo_heap) = - 1"
    by (simp_all add: initial_def)
  show ?thesis
    using h c undo_redo_before_initialize [OF h c] by simp
qed

end
